theory Spec2Isabelle
  imports Complex_Main "HOL-Library.Monad_Syntax"
begin

section \<open>The frame-rate reducer of \<^verbatim>\<open>load_dataset_tfrecords.py\<close>\<close>

text \<open>
  \<^verbatim>\<open>_reduce_fps(video, frame_count)\<close> (source lines 119--150) builds a TensorFlow graph
  that drops one frame out of six.  The embedding below evaluates that graph: a tensor of
  rank one is a list, the video tensor is the list of its frames (the gather is along the
  first axis, so a frame is an opaque value of type \<open>'a\<close>), and an operation that raises
  \<^verbatim>\<open>InvalidArgumentError\<close> when the graph runs returns \<open>None\<close>.

  \<^verbatim>\<open>frame_count\<close> is an \<^verbatim>\<open>int32\<close> scalar (the caller casts it with
  \<^verbatim>\<open>tf.cast(features['Frames'], tf.int32)\<close>), and so is every integer the function
  computes from it.  Integers are modelled as \<open>int\<close>, and every \<^verbatim>\<open>int32\<close>
  operation wraps its result around with \<open>wrap32\<close>.
\<close>

subsection \<open>32-bit integers\<close>

definition is_int32 :: "int \<Rightarrow> bool" where
  "is_int32 x \<longleftrightarrow> - (2 ^ 31) \<le> x \<and> x < 2 ^ 31"

definition wrap32 :: "int \<Rightarrow> int" where
  "wrap32 x = (x + 2 ^ 31) mod 2 ^ 32 - 2 ^ 31"

subsection \<open>The TensorFlow operations the function calls\<close>

text \<open>
  \<^verbatim>\<open>tf.divide\<close> of two integer tensors is true division (its result is the argument
  of \<^verbatim>\<open>tf.ceil\<close>, which takes floats only): the operands are cast to
  \<^verbatim>\<open>float64\<close>.  An \<^verbatim>\<open>int32\<close> is exact in \<^verbatim>\<open>float64\<close>, and the correctly rounded
  quotient of an \<^verbatim>\<open>int32\<close> by 6 has the same ceiling as the exact quotient (a quotient
  that is not an integer is at least 1/6 away from the next one), so the quotient is
  modelled as a real number.
\<close>

definition tf_divide :: "int \<Rightarrow> int \<Rightarrow> real" where
  "tf_divide x y = real_of_int x / real_of_int y"

definition tf_ceil :: "real \<Rightarrow> real" where
  "tf_ceil x = real_of_int \<lceil>x\<rceil>"

text \<open>The cast of a float to \<^verbatim>\<open>int32\<close> truncates towards zero.\<close>

definition tf_cast_int32 :: "real \<Rightarrow> int" where
  "tf_cast_int32 x = wrap32 (if x < 0 then \<lceil>x\<rceil> else \<lfloor>x\<rfloor>)"

definition tf_multiply :: "int \<Rightarrow> int \<Rightarrow> int" where
  "tf_multiply x y = wrap32 (x * y)"

definition tf_add :: "int \<Rightarrow> int \<Rightarrow> int" where
  "tf_add x y = wrap32 (x + y)"

definition tf_subtract :: "int \<Rightarrow> int \<Rightarrow> int" where
  "tf_subtract x y = wrap32 (x - y)"

definition tf_equal :: "int \<Rightarrow> int \<Rightarrow> bool" where
  "tf_equal x y \<longleftrightarrow> x = y"

text \<open>\<^verbatim>\<open>tf.multiply(v, c)\<close> of a vector and a scalar broadcasts the scalar.\<close>

definition tf_multiply_vec :: "int list \<Rightarrow> int \<Rightarrow> int list" where
  "tf_multiply_vec xs c = map (\<lambda>x. tf_multiply x c) xs"

text \<open>
  \<^verbatim>\<open>tf.add\<close> of two vectors of one shape is elementwise (the function only adds
  two vectors that were both reshaped to \<^verbatim>\<open>[intermediate_frames]\<close>; other shapes
  are not modelled).
\<close>

definition tf_add_vec :: "int list \<Rightarrow> int list \<Rightarrow> int list option" where
  "tf_add_vec xs ys =
     (if length xs = length ys then Some (map2 tf_add xs ys) else None)"

text \<open>\<^verbatim>\<open>tf.tile(v, [m])\<close> repeats a vector \<open>m\<close> times; a negative \<open>m\<close> is refused.\<close>

definition tf_tile :: "'a list \<Rightarrow> int \<Rightarrow> 'a list option" where
  "tf_tile xs m = (if m < 0 then None else Some (concat (replicate (nat m) xs)))"

text \<open>
  \<^verbatim>\<open>tf.reshape(t, [n])\<close> to rank one keeps the elements in row-major order and
  needs \<open>n\<close> of them; the size \<open>-1\<close> stands for "as many as there are".
\<close>

definition tf_reshape :: "'a list \<Rightarrow> int \<Rightarrow> 'a list option" where
  "tf_reshape xs n = (if n = - 1 \<or> int (length xs) = n then Some xs else None)"

definition tf_reshape_matrix :: "'a list list \<Rightarrow> int \<Rightarrow> 'a list option" where
  "tf_reshape_matrix rows n = tf_reshape (concat rows) n"

text \<open>\<^verbatim>\<open>tf.range(limit)\<close> counts from 0 and refuses a negative limit.\<close>

definition tf_range :: "int \<Rightarrow> int list option" where
  "tf_range limit = (if limit < 0 then None else Some (map int [0..<nat limit]))"

text \<open>\<^verbatim>\<open>tf.stack\<close> of vectors of one length: they are the rows of a matrix.\<close>

definition tf_stack :: "'a list list \<Rightarrow> 'a list list" where
  "tf_stack rows = rows"

definition tf_transpose :: "'a list list \<Rightarrow> 'a list list" where
  "tf_transpose rows = transpose rows"

text \<open>
  \<^verbatim>\<open>tf.slice(v, [b], [s])\<close>: \<open>s\<close> elements from position \<open>b\<close>, or all the
  remaining ones when \<open>s = -1\<close>; a slice that leaves the vector is refused.
\<close>

definition tf_slice :: "'a list \<Rightarrow> int \<Rightarrow> int \<Rightarrow> 'a list option" where
  "tf_slice xs b s =
     (if b < 0 \<or> int (length xs) < b then None
      else if s = - 1 then Some (drop (nat b) xs)
      else if s < 0 \<or> int (length xs) < b + s then None
      else Some (take (nat s) (drop (nat b) xs)))"

text \<open>
  \<^verbatim>\<open>tf.gather(params, indices)\<close> along the first axis; an index outside
  \<open>[0, length params)\<close> is refused (the CPU kernel's behaviour; the GPU kernel
  returns zeros there).
\<close>

definition tf_gather :: "'a list \<Rightarrow> int list \<Rightarrow> 'a list option" where
  "tf_gather params indices =
     (if list_all (\<lambda>i. 0 \<le> i \<and> i < int (length params)) indices
      then Some (map (\<lambda>i. params ! nat i) indices)
      else None)"

subsection \<open>\<^verbatim>\<open>_reduce_fps\<close>\<close>

text \<open>Line 130: \<^verbatim>\<open>remove_count = tf.cast(tf.ceil(tf.divide(frame_count, 6)), tf.int32)\<close>.\<close>

definition remove_count :: "int \<Rightarrow> int" where
  "remove_count frame_count = tf_cast_int32 (tf_ceil (tf_divide frame_count 6))"

text \<open>
  Lines 132--140: the candidate indices \<open>0,1,2,3,4,6,7,8,9,10,12,...\<close>, from the
  value \<open>rc\<close> of \<^verbatim>\<open>remove_count\<close>.
\<close>

definition candidate_indices :: "int \<Rightarrow> int list option" where
  "candidate_indices rc = do {
     let intermediate_frames = tf_multiply rc 5;
     indices \<leftarrow> tf_tile [0, 1, 2, 3, 4] rc;
     indices \<leftarrow> tf_reshape indices intermediate_frames;
     additions \<leftarrow> tf_range rc;
     let additions = tf_stack [additions, additions, additions, additions, additions];
     let additions = tf_transpose additions;
     additions \<leftarrow> tf_reshape_matrix additions intermediate_frames;
     let additions = tf_multiply_vec additions 6;
     tf_add_vec indices additions
   }"

text \<open>
  Lines 142--144: the \<^verbatim>\<open>tf.cond\<close> that rebinds \<^verbatim>\<open>remove_count\<close> to the number
  of frames really dropped.
\<close>

definition dropped_count :: "int \<Rightarrow> int \<Rightarrow> int" where
  "dropped_count frame_count rc =
     (if tf_equal frame_count (tf_multiply rc 6)
      then rc
      else tf_subtract rc 1)"

text \<open>
  The whole function; it returns \<^verbatim>\<open>(output, output_frames, indices)\<close>.  The
  variable \<^verbatim>\<open>remove_count\<close> of the source is \<open>rc\<close>.
\<close>

definition reduce_fps :: "'a list \<Rightarrow> int \<Rightarrow> ('a list \<times> int \<times> int list) option" where
  "reduce_fps video frame_count = do {
     let rc = remove_count frame_count;
     indices \<leftarrow> candidate_indices rc;
     let rc = dropped_count frame_count rc;
     let output_frames = tf_subtract frame_count rc;
     indices \<leftarrow> tf_slice indices 0 output_frames;
     indices_to_keep \<leftarrow> tf_reshape indices output_frames;
     output \<leftarrow> tf_gather video indices_to_keep;
     Some (output, output_frames, indices)
   }"

subsection \<open>The formulas of the specification\<close>

text \<open>
  The specification's step 1, \<open>period_count = ceil(N / 6)\<close>, its step 4, "if \<open>N\<close> is
  exactly divisible by 6, dropped_count = \<open>period_count\<close>; otherwise dropped_count =
  \<open>period_count - 1\<close>", and its step 2, the kept indices \<open>{0,1,2,3,4} + 6p\<close> of the
  period \<open>p\<close>.  They follow the specification's words, not the code.
\<close>

definition spec_period_count :: "int \<Rightarrow> int" where
  "spec_period_count n = \<lceil>real_of_int n / 6\<rceil>"

definition spec_dropped_count :: "int \<Rightarrow> int" where
  "spec_dropped_count n =
     (if 6 dvd n then spec_period_count n else spec_period_count n - 1)"

definition spec_period :: "int \<Rightarrow> int list" where
  "spec_period p = map (\<lambda>k. k + 6 * p) [0, 1, 2, 3, 4]"

section \<open>Closed forms of the intermediate tensors\<close>

lemma wrap32_id: "is_int32 x \<Longrightarrow> wrap32 x = x"
  by (simp add: is_int32_def wrap32_def)

lemma remove_count_eq:
  assumes "0 \<le> n" "n < 2 ^ 31"
  shows "remove_count n = (n + 5) div 6"
proof -
  have c: "\<lceil>real_of_int n / 6\<rceil> = (n + 5) div 6"
    using ceiling_divide_eq_div [of n 6, where ?'a = real] by simp
  have "0 \<le> (n + 5) div 6" "(n + 5) div 6 < 2 ^ 31"
    using assms by simp_all
  then show ?thesis
    by (simp add: remove_count_def tf_divide_def tf_ceil_def tf_cast_int32_def c wrap32_id is_int32_def)
qed

lemma upt_5: "[0..<5] = [0, 1, 2, 3, 4]"
  by code_simp

lemma upt_5_Suc: "[0..<5 * Suc n] = [0..<5 * n] @ [5 * n, 5 * n + 1, 5 * n + 2, 5 * n + 3, 5 * n + 4]"
proof -
  have "[0..<5 * n + 5] = [0..<5 * n] @ map (\<lambda>k. k + 5 * n) [0..<5]"
    by (simp only: upt_add_eq_append [OF le0] map_add_upt) (simp add: add.commute)
  then show ?thesis
    by (simp add: upt_5 add.commute)
qed

lemma concat_replicate_Suc: "concat (replicate (Suc n) xs) = concat (replicate n xs) @ xs"
  by (induction n) simp_all

lemma tile_closed_form:
  "concat (replicate n [0, 1, 2, 3, 4 :: int]) = map (\<lambda>i. int (i mod 5)) [0..<5 * n]"
proof (induction n)
  case 0
  show ?case by simp
next
  case (Suc n)
  have "(5 * n) mod 5 = 0" "(5 * n + 1) mod 5 = 1" "(5 * n + 2) mod 5 = 2"
    "(5 * n + 3) mod 5 = 3" "(5 * n + 4) mod 5 = 4"
    by presburger+
  then have "map (\<lambda>i. int (i mod 5)) [5 * n, 5 * n + 1, 5 * n + 2, 5 * n + 3, 5 * n + 4]
      = [0, 1, 2, 3, 4]"
    by (simp only: list.map) simp
  then show ?case
    by (simp only: concat_replicate_Suc Suc upt_5_Suc map_append)
qed

lemma transpose_five:
  "transpose [xs, xs, xs, xs, xs] = map (\<lambda>x. [x, x, x, x, x]) xs"
proof -
  have "transpose [xs, xs, xs, xs, xs] =
      map (\<lambda>i. map (\<lambda>j. [xs, xs, xs, xs, xs] ! j ! i) [0..<length [xs, xs, xs, xs, xs]]) [0..<length xs]"
  proof (rule transpose_rectangle)
    fix i
    assume "i < length [xs, xs, xs, xs, xs]"
    then have "[xs, xs, xs, xs, xs] ! i \<in> set [xs, xs, xs, xs, xs]"
      by (rule nth_mem)
    then show "length ([xs, xs, xs, xs, xs] ! i) = length xs"
      by simp
  qed simp
  also have "[0..<length [xs, xs, xs, xs, xs]] = [0, 1, 2, 3, 4]"
    using upt_5 by simp
  also have "map (\<lambda>i. map (\<lambda>j. [xs, xs, xs, xs, xs] ! j ! i) [0, 1, 2, 3, 4]) [0..<length xs]
     = map (\<lambda>i. [xs ! i, xs ! i, xs ! i, xs ! i, xs ! i]) [0..<length xs]"
    by simp
  also have "\<dots> = map (\<lambda>x. [x, x, x, x, x]) xs"
    by (rule nth_equalityI) simp_all
  finally show ?thesis .
qed

lemma additions_closed_form:
  "concat (map (\<lambda>x. [x, x, x, x, x]) (map int [0..<n])) = map (\<lambda>i. int (i div 5)) [0..<5 * n]"
proof (induction n)
  case 0
  show ?case by simp
next
  case (Suc n)
  have "(5 * n) div 5 = n" "(5 * n + 1) div 5 = n" "(5 * n + 2) div 5 = n" "(5 * n + 3) div 5 = n"
    "(5 * n + 4) div 5 = n"
    by presburger+
  then have "map (\<lambda>i. int (i div 5)) [5 * n, 5 * n + 1, 5 * n + 2, 5 * n + 3, 5 * n + 4]
      = [int n, int n, int n, int n, int n]"
    by (simp only: list.map)
  moreover have "concat (map (\<lambda>x. [x, x, x, x, x]) (map int [0..<Suc n]))
     = concat (map (\<lambda>x. [x, x, x, x, x]) (map int [0..<n])) @ [int n, int n, int n, int n, int n]"
    by simp
  ultimately show ?case
    by (simp only: Suc upt_5_Suc map_append)
qed

lemma map2_same: "map2 f (map g xs) (map h xs) = map (\<lambda>x. f (g x) (h x)) xs"
  by (induction xs) simp_all

lemma candidate_indices_eq:
  assumes "0 \<le> rc" "rc * 5 < 2 ^ 31"
  shows "candidate_indices rc =
    Some (map (\<lambda>i. tf_add (int (i mod 5)) (tf_multiply (int (i div 5)) 6)) [0..<5 * nat rc])"
proof -
  have m: "tf_multiply rc 5 = rc * 5"
    using assms by (simp add: tf_multiply_def wrap32_id is_int32_def)
  have l: "int (5 * nat rc) = rc * 5"
    using assms by simp
  have t: "tf_tile [0, 1, 2, 3, 4] rc = Some (map (\<lambda>i. int (i mod 5)) [0..<5 * nat rc])"
    using assms(1) by (simp add: tf_tile_def tile_closed_form)
  have r1: "tf_reshape (map (\<lambda>i. int (i mod 5)) [0..<5 * nat rc]) (rc * 5)
      = Some (map (\<lambda>i. int (i mod 5)) [0..<5 * nat rc])"
    using l by (simp add: tf_reshape_def)
  have rg: "tf_range rc = Some (map int [0..<nat rc])"
    using assms(1) by (simp add: tf_range_def)
  have tr: "tf_reshape_matrix (tf_transpose (tf_stack [map int [0..<nat rc], map int [0..<nat rc],
       map int [0..<nat rc], map int [0..<nat rc], map int [0..<nat rc]])) (rc * 5)
     = Some (map (\<lambda>i. int (i div 5)) [0..<5 * nat rc])"
    using l by (simp only: tf_stack_def tf_transpose_def tf_reshape_matrix_def transpose_five
        additions_closed_form tf_reshape_def) simp
  have ad: "tf_add_vec (map (\<lambda>i. int (i mod 5)) [0..<5 * nat rc])
      (tf_multiply_vec (map (\<lambda>i. int (i div 5)) [0..<5 * nat rc]) 6)
     = Some (map (\<lambda>i. tf_add (int (i mod 5)) (tf_multiply (int (i div 5)) 6)) [0..<5 * nat rc])"
    by (simp add: tf_add_vec_def tf_multiply_vec_def map2_same comp_def)
  show ?thesis
    by (simp add: candidate_indices_def m t r1 rg tr ad)
qed

section \<open>The equality test, the dropped frames and the kept indices\<close>

lemma wrap32_above: 
  assumes "2 ^ 31 \<le> x" "x < 2 ^ 31 + 2 ^ 32"
  shows "wrap32 x = x - 2 ^ 32"
proof -
  have "(x + 2 ^ 31) mod 2 ^ 32 = (x + 2 ^ 31 - 2 ^ 32) mod 2 ^ 32"
    by (simp only: minus_mod_self2)
  also have "\<dots> = x + 2 ^ 31 - 2 ^ 32"
    using assms by (intro mod_pos_pos_trivial) simp_all
  finally show ?thesis
    by (simp add: wrap32_def)
qed

lemma equality_test_iff:
  assumes "0 \<le> n" "n < 2 ^ 31"
  shows "tf_equal n (tf_multiply (remove_count n) 6) \<longleftrightarrow> 6 dvd n"
proof (cases "(n + 5) div 6 * 6 < 2 ^ 31")
  case True
  then have "wrap32 ((n + 5) div 6 * 6) = (n + 5) div 6 * 6"
    using assms by (intro wrap32_id) (simp add: is_int32_def)
  moreover have "n = (n + 5) div 6 * 6 \<longleftrightarrow> 6 dvd n"
    by presburger
  ultimately show ?thesis
    using assms by (simp add: tf_equal_def tf_multiply_def remove_count_eq)
next
  case False
  have "(n + 5) div 6 * 6 \<le> n + 5"
    by presburger
  then have "wrap32 ((n + 5) div 6 * 6) = (n + 5) div 6 * 6 - 2 ^ 32"
    using False assms by (intro wrap32_above) simp_all
  moreover have "(n + 5) div 6 * 6 - 2 ^ 32 < 0"
    using \<open>(n + 5) div 6 * 6 \<le> n + 5\<close> assms by simp
  moreover have "\<not> 6 dvd n"
  proof
    assume "6 dvd n"
    then have "(n + 5) div 6 * 6 = n" by presburger
    with False assms show False by simp
  qed
  ultimately show ?thesis
    using assms by (simp add: tf_equal_def tf_multiply_def remove_count_eq)
qed

lemma dropped_count_eq:
  assumes "0 \<le> n" "n < 2 ^ 31"
  shows "dropped_count n (remove_count n) = n div 6"
proof (cases "6 dvd n")
  case True
  then have e: "(n + 5) div 6 = n div 6" by presburger
  have "tf_equal n (tf_multiply (remove_count n) 6)"
    using True assms by (simp only: equality_test_iff)
  then have "dropped_count n (remove_count n) = remove_count n"
    by (simp only: dropped_count_def if_True)
  then show ?thesis
    using assms e by (simp only: remove_count_eq)
next
  case False
  then have e: "(n + 5) div 6 - 1 = n div 6" by presburger
  have "0 \<le> n div 6" "n div 6 \<le> n"
    using assms(1) by presburger+
  then have w: "wrap32 (n div 6) = n div 6"
    using assms(2) by (intro wrap32_id) (simp add: is_int32_def)
  have "\<not> tf_equal n (tf_multiply (remove_count n) 6)"
    using False assms by (simp only: equality_test_iff not_False_eq_True)
  then have "dropped_count n (remove_count n) = tf_subtract (remove_count n) 1"
    by (simp only: dropped_count_def if_False)
  then show ?thesis
    using assms e w by (simp only: remove_count_eq tf_subtract_def)
qed

lemma output_frames_eq:
  assumes "0 \<le> n" "n < 2 ^ 31"
  shows "tf_subtract n (n div 6) = n - n div 6"
proof -
  have "0 \<le> n - n div 6" "n - n div 6 \<le> n"
    using assms(1) by presburger+
  then show ?thesis
    using assms(2) by (simp add: tf_subtract_def wrap32_id is_int32_def)
qed

lemma kept_index_bound:
  assumes "int i < n - n div 6"
  shows "int (i + i div 5) < n"
proof -
  have "int i + int i div 5 < n"
    using assms by presburger
  then show ?thesis
    by (simp only: of_nat_add of_nat_div of_nat_numeral)
qed

lemma kept_index_value:
  assumes "n < 2 ^ 31" "int i < n - n div 6"
  shows "tf_add (int (i mod 5)) (tf_multiply (int (i div 5)) 6) = int (i + i div 5)"
proof -
  have b: "int (i + i div 5) < n"
    using assms(2) by (rule kept_index_bound)
  have s: "int (i mod 5) + int (i div 5) * 6 = int (i + i div 5)"
    by (simp only: of_nat_add of_nat_mod of_nat_div) presburger
  have "int (i div 5) * 6 \<le> int (i + i div 5)"
    using s by linarith
  then have "tf_multiply (int (i div 5)) 6 = int (i div 5) * 6"
    using b assms(1) by (simp add: tf_multiply_def wrap32_id is_int32_def)
  then show ?thesis
    using b s assms(1) by (simp add: tf_add_def wrap32_id is_int32_def)
qed

section \<open>What the function returns\<close>

lemma reduce_fps_eq:
  assumes "0 \<le> n" "n < 2 ^ 31" "n \<le> int (length video)"
  shows "reduce_fps video n =
    Some (map (\<lambda>i. video ! (i + i div 5)) [0..<nat (n - n div 6)],
          n - n div 6,
          map (\<lambda>i. int (i + i div 5)) [0..<nat (n - n div 6)])"
proof -
  let ?rc = "remove_count n"
  let ?m = "nat (n - n div 6)"
  let ?f = "\<lambda>i. tf_add (int (i mod 5)) (tf_multiply (int (i div 5)) 6)"
  let ?g = "\<lambda>i. int (i + i div 5)"
  have rc: "?rc = (n + 5) div 6"
    using assms(1,2) by (rule remove_count_eq)
  have rc0: "0 \<le> ?rc" and rc5: "?rc * 5 < 2 ^ 31"
    using assms(1,2) unfolding rc by simp_all
  have cand: "candidate_indices ?rc = Some (map ?f [0..<5 * nat ?rc])"
    using rc0 rc5 by (rule candidate_indices_eq)
  have m0: "0 \<le> n - n div 6" and m5: "n - n div 6 \<le> 5 * ?rc"
    using assms(1) unfolding rc by presburger+
  have mle: "?m \<le> 5 * nat ?rc"
    using m5 rc0 by linarith
  have m: "int ?m = n - n div 6"
    using m0 by simp
  have tk: "take ?m (map ?f [0..<5 * nat ?rc]) = map ?f [0..<?m]"
    using mle by (simp add: take_map)
  have fg: "map ?f [0..<?m] = map ?g [0..<?m]"
  proof (rule map_cong [OF refl])
    fix i
    assume "i \<in> set [0..<?m]"
    then have "int i < n - n div 6" by simp
    with assms(2) show "?f i = ?g i" by (rule kept_index_value)
  qed
  have sl: "tf_slice (map ?f [0..<5 * nat ?rc]) 0 (n - n div 6) = Some (map ?g [0..<?m])"
  proof -
    have "n - n div 6 \<noteq> - 1" "\<not> n - n div 6 < 0"
      using m0 by simp_all
    moreover have "\<not> int (length (map ?f [0..<5 * nat ?rc])) < 0 + (n - n div 6)"
      using m5 rc0 by simp
    ultimately show ?thesis
      by (simp add: tf_slice_def tk fg)
  qed
  have rs: "tf_reshape (map ?g [0..<?m]) (n - n div 6) = Some (map ?g [0..<?m])"
    using m by (simp add: tf_reshape_def)
  have ga: "tf_gather video (map ?g [0..<?m]) = Some (map (\<lambda>i. video ! (i + i div 5)) [0..<?m])"
  proof -
    have "list_all (\<lambda>i. 0 \<le> i \<and> i < int (length video)) (map ?g [0..<?m])"
      unfolding list_all_iff
    proof
      fix x
      assume "x \<in> set (map ?g [0..<?m])"
      then obtain i where i: "x = ?g i" "int i < n - n div 6"
        by auto
      from i(2) have "?g i < n" by (rule kept_index_bound)
      with i(1) assms(3) show "0 \<le> x \<and> x < int (length video)" by simp
    qed
    moreover have "map (\<lambda>i. video ! nat i) (map ?g [0..<?m])
        = map (\<lambda>i. video ! (i + i div 5)) [0..<?m]"
      by (simp only: map_map comp_def nat_int)
    ultimately show ?thesis
      by (simp only: tf_gather_def if_True)
  qed
  have dc: "dropped_count n ?rc = n div 6"
    using assms(1,2) by (rule dropped_count_eq)
  have out: "tf_subtract n (n div 6) = n - n div 6"
    using assms(1,2) by (rule output_frames_eq)
  show ?thesis
    by (simp only: reduce_fps_def Let_def cand dc out sl rs ga Option.bind.simps)
qed

lemma map_int_upt: "map int [0..<k] = [0..int k - 1]"
  by (rule nth_equalityI) simp_all

lemma kept_sorted: "sorted_wrt (<) (map (\<lambda>i. int (i + i div 5)) [0..<m])"
proof -
  have "sorted_wrt (\<lambda>i j. int (i + i div 5) < int (j + j div 5)) [0..<m]"
  proof (rule sorted_wrt_mono_rel [of _ "(<)"])
    fix i j :: nat
    assume "i < j"
    then have "i div 5 \<le> j div 5" by (simp add: div_le_mono)
    with \<open>i < j\<close> show "int (i + i div 5) < int (j + j div 5)" by simp
  qed simp
  then show ?thesis by (simp only: sorted_wrt_map)
qed

lemma kept_periods:
  "map (\<lambda>i. int (i + i div 5)) [0..<5 * q] = concat (map spec_period (map int [0..<q]))"
proof (induction q)
  case 0
  show ?case by simp
next
  case (Suc q)
  have "(5 * q) div 5 = q" "(5 * q + 1) div 5 = q" "(5 * q + 2) div 5 = q" "(5 * q + 3) div 5 = q"
    "(5 * q + 4) div 5 = q"
    by presburger+
  then have "map (\<lambda>i. int (i + i div 5)) [5 * q, 5 * q + 1, 5 * q + 2, 5 * q + 3, 5 * q + 4]
      = [int (5 * q + q), int (5 * q + 1 + q), int (5 * q + 2 + q), int (5 * q + 3 + q),
         int (5 * q + 4 + q)]"
    by (simp only: list.map)
  also have "\<dots> = spec_period (int q)"
    by (simp add: spec_period_def)
  finally have "map (\<lambda>i. int (i + i div 5)) [0..<5 * Suc q]
      = map (\<lambda>i. int (i + i div 5)) [0..<5 * q] @ spec_period (int q)"
    by (simp only: upt_5_Suc map_append)
  moreover have "concat (map spec_period (map int [0..<Suc q]))
      = concat (map spec_period (map int [0..<q])) @ spec_period (int q)"
    by simp
  ultimately show ?case
    by (simp only: Suc)
qed

lemma kept_short:
  assumes "m \<le> 5"
  shows "map (\<lambda>i. int (i + i div 5)) [0..<m] = map int [0..<m]"
    and "length video = m \<Longrightarrow> map (\<lambda>i. video ! (i + i div 5)) [0..<m] = video"
proof -
  have z: "i div 5 = 0" if "i \<in> set [0..<m]" for i
    using that assms by simp
  show "map (\<lambda>i. int (i + i div 5)) [0..<m] = map int [0..<m]"
    by (rule map_cong [OF refl]) (simp only: z add_0_right)
  assume "length video = m"
  then have "map (\<lambda>i. video ! i) [0..<m] = video"
    using map_nth [of video] by simp
  moreover have "map (\<lambda>i. video ! (i + i div 5)) [0..<m] = map (\<lambda>i. video ! i) [0..<m]"
    by (rule map_cong [OF refl]) (simp only: z add_0_right)
  ultimately show "map (\<lambda>i. video ! (i + i div 5)) [0..<m] = video"
    by simp
qed

lemma kept_in_range:
  assumes "0 \<le> n"
  shows "list_all (\<lambda>i. 0 \<le> i \<and> i < n) (map (\<lambda>i. int (i + i div 5)) [0..<nat (n - n div 6)])"
  unfolding list_all_iff
proof
  fix x
  assume "x \<in> set (map (\<lambda>i. int (i + i div 5)) [0..<nat (n - n div 6)])"
  then obtain i where i: "x = int (i + i div 5)" "int i < n - n div 6"
    by auto
  from i(2) have "int (i + i div 5) < n" by (rule kept_index_bound)
  with i(1) show "0 \<le> x \<and> x < n" by simp
qed

section \<open>The claims\<close>

text \<open>
  The caller reshapes the decoded bytes to \<^verbatim>\<open>[frames, height, width, channel]\<close> and
  passes \<^verbatim>\<open>frames\<close> as the frame count, so a claim about what the function returns
  at a frame count \<open>n\<close> is stated for a video of \<open>n\<close> frames and an \<^verbatim>\<open>int32\<close>
  \<open>n\<close>.
\<close>

text \<open>
  C1: for a frame count \<open>n > 0\<close> that is a multiple of 6, the function returns the
  output count \<open>n - n / 6\<close> and the kept indices \<open>{0,1,2,3,4} + 6p\<close> for
  \<open>p = 0, ..., n / 6 - 1\<close>, concatenated.  At \<open>n = 12\<close> these are 10 and
  \<open>[0,1,2,3,4,6,7,8,9,10]\<close>.
\<close>

theorem reduce_fps_multiple_of_6:
  assumes "0 < n" and "6 dvd n" and "is_int32 n" and "int (length video) = n"
  shows "map_option snd (reduce_fps video n) =
           Some (n - n div 6, concat (map spec_period [0..n div 6 - 1]))"
proof -
  have r: "reduce_fps video n =
    Some (map (\<lambda>i. video ! (i + i div 5)) [0..<nat (n - n div 6)], n - n div 6,
          map (\<lambda>i. int (i + i div 5)) [0..<nat (n - n div 6)])"
    using assms by (intro reduce_fps_eq) (simp_all add: is_int32_def)
  have "n - n div 6 = 5 * (n div 6)"
    using assms(2) by presburger
  then have "nat (n - n div 6) = 5 * nat (n div 6)"
    by (simp add: nat_mult_distrib)
  moreover have "int (nat (n div 6)) = n div 6"
    using assms(1) by simp
  ultimately have "map (\<lambda>i. int (i + i div 5)) [0..<nat (n - n div 6)]
      = concat (map spec_period [0..n div 6 - 1])"
    by (simp only: kept_periods map_int_upt)
  with r show ?thesis by simp
qed

theorem reduce_fps_multiple_of_6_witness:
  "(0::int) < 12 \<and> (6::int) dvd 12 \<and> is_int32 12 \<and> int (length ''abcdefghijkl'') = 12 \<and>
   map_option snd (reduce_fps ''abcdefghijkl'' 12) = Some (10, [0, 1, 2, 3, 4, 6, 7, 8, 9, 10]) \<and>
   map_option snd (reduce_fps ''abcdef'' 6) = Some (5, [0, 1, 2, 3, 4])"
  using reduce_fps_multiple_of_6 [of 12 "''abcdefghijkl''"]
    reduce_fps_multiple_of_6 [of 6 "''abcdef''"]
  by (simp add: is_int32_def spec_period_def upto_rec1 del: map_option_eq_Some)

text \<open>
  C2: for a frame count \<open>n > 0\<close> that is not a multiple of 6, the function returns the
  output count \<open>n - (ceil(n / 6) - 1)\<close>.  At \<open>n = 10\<close> it returns 9 and the kept
  indices \<open>[0,1,2,3,4,6,7,8,9]\<close>.
\<close>

theorem reduce_fps_not_multiple_of_6:
  assumes "0 < n" and "\<not> 6 dvd n" and "is_int32 n" and "int (length video) = n"
  shows "map_option (fst \<circ> snd) (reduce_fps video n) = Some (n - (\<lceil>real_of_int n / 6\<rceil> - 1))"
proof -
  have r: "reduce_fps video n =
    Some (map (\<lambda>i. video ! (i + i div 5)) [0..<nat (n - n div 6)], n - n div 6,
          map (\<lambda>i. int (i + i div 5)) [0..<nat (n - n div 6)])"
    using assms by (intro reduce_fps_eq) (simp_all add: is_int32_def)
  have "\<lceil>real_of_int n / 6\<rceil> = (n + 5) div 6"
    using ceiling_divide_eq_div [of n 6, where ?'a = real] by simp
  moreover have "(n + 5) div 6 - 1 = n div 6"
    using assms(2) by presburger
  ultimately show ?thesis
    using r by simp
qed

theorem reduce_fps_not_multiple_of_6_witness:
  "(0::int) < 10 \<and> \<not> (6::int) dvd 10 \<and> is_int32 10 \<and> int (length ''abcdefghij'') = 10 \<and>
   map_option (fst \<circ> snd) (reduce_fps ''abcdefghij'' 10) = Some 9 \<and>
   reduce_fps ''abcdefghij'' 10 = Some (''abcdeghij'', 9, [0, 1, 2, 3, 4, 6, 7, 8, 9])"
proof -
  have h: "(0::int) < 10" "\<not> (6::int) dvd 10" "is_int32 10" "int (length ''abcdefghij'') = 10"
    by (simp_all add: is_int32_def)
  have "map_option (fst \<circ> snd) (reduce_fps ''abcdefghij'' 10)
      = Some (10 - (\<lceil>real_of_int 10 / 6\<rceil> - 1))"
    using h by (rule reduce_fps_not_multiple_of_6)
  then have c: "map_option (fst \<circ> snd) (reduce_fps ''abcdefghij'' 10) = Some 9"
    by (simp del: map_option_eq_Some)
  have r: "reduce_fps ''abcdefghij'' 10 = Some (''abcdeghij'', 9, [0, 1, 2, 3, 4, 6, 7, 8, 9])"
    using reduce_fps_eq [of 10 "''abcdefghij''"] by (simp add: upt_conv_Cons)
  from h c r show ?thesis by (intro conjI)
qed

text \<open>
  C3: for a frame count \<open>n > 0\<close>, the kept indices are strictly increasing, each of
  them lies in \<open>[0, n)\<close>, and the final gather of the frames at these indices succeeds:
  it reads no position outside the video.
\<close>

theorem reduce_fps_indices_increasing_in_range:
  assumes "0 < n" and "is_int32 n" and "int (length video) = n"
  shows "case reduce_fps video n of
           None \<Rightarrow> False
         | Some (output, output_frames, indices) \<Rightarrow>
             sorted_wrt (<) indices \<and>
             list_all (\<lambda>i. 0 \<le> i \<and> i < n) indices \<and>
             tf_gather video indices = Some output"
proof -
  let ?idx = "map (\<lambda>i. int (i + i div 5)) [0..<nat (n - n div 6)]"
  let ?out = "map (\<lambda>i. video ! (i + i div 5)) [0..<nat (n - n div 6)]"
  have r: "reduce_fps video n = Some (?out, n - n div 6, ?idx)"
    using assms by (intro reduce_fps_eq) (simp_all add: is_int32_def)
  have s: "sorted_wrt (<) ?idx"
    by (rule kept_sorted)
  have b: "list_all (\<lambda>i. 0 \<le> i \<and> i < n) ?idx"
    using assms(1) by (intro kept_in_range) simp
  have "list_all (\<lambda>i. 0 \<le> i \<and> i < int (length video)) ?idx"
    using b by (simp only: assms(3))
  moreover have "map (\<lambda>i. video ! nat i) ?idx = ?out"
    by (simp only: map_map comp_def nat_int)
  ultimately have g: "tf_gather video ?idx = Some ?out"
    by (simp only: tf_gather_def if_True)
  show ?thesis
    using s b g by (simp only: r option.case prod.case simp_thms)
qed

theorem reduce_fps_indices_increasing_in_range_witness:
  "(0::int) < 7 \<and> is_int32 7 \<and> int (length ''abcdefg'') = 7 \<and>
   reduce_fps ''abcdefg'' 7 = Some (''abcdeg'', 6, [0, 1, 2, 3, 4, 6]) \<and>
   (case reduce_fps ''abcdefg'' 7 of
      None \<Rightarrow> False
    | Some (output, output_frames, indices) \<Rightarrow>
        sorted_wrt (<) indices \<and>
        list_all (\<lambda>i. 0 \<le> i \<and> i < 7) indices \<and>
        tf_gather ''abcdefg'' indices = Some output)"
proof -
  have h: "(0::int) < 7" "is_int32 7" "int (length ''abcdefg'') = 7"
    by (simp_all add: is_int32_def)
  have r: "reduce_fps ''abcdefg'' 7 = Some (''abcdeg'', 6, [0, 1, 2, 3, 4, 6])"
    using reduce_fps_eq [of 7 "''abcdefg''"] by (simp add: upt_conv_Cons)
  from h r reduce_fps_indices_increasing_in_range [OF h] show ?thesis
    by (intro conjI)
qed

text \<open>
  C4: for a frame count \<open>n \<ge> 0\<close>, the function returns a triple whose output count is
  the number of kept indices and whose output frames are the input frames at the kept
  indices, in order: the \<open>i\<close>-th output frame is the input frame at the \<open>i\<close>-th kept
  index.
\<close>

theorem reduce_fps_output_is_gather:
  assumes "0 \<le> n" and "is_int32 n" and "int (length video) = n"
  shows "case reduce_fps video n of
           None \<Rightarrow> False
         | Some (output, output_frames, indices) \<Rightarrow>
             output_frames = int (length indices) \<and>
             length output = length indices \<and>
             list_all (\<lambda>i. 0 \<le> indices ! i \<and> nat (indices ! i) < length video \<and>
                 output ! i = video ! nat (indices ! i)) [0..<length indices]"
proof -
  let ?m = "nat (n - n div 6)"
  let ?idx = "map (\<lambda>i. int (i + i div 5)) [0..<?m]"
  let ?out = "map (\<lambda>i. video ! (i + i div 5)) [0..<?m]"
  have r: "reduce_fps video n = Some (?out, n - n div 6, ?idx)"
    using assms by (intro reduce_fps_eq) (simp_all add: is_int32_def)
  have "0 \<le> n - n div 6"
    using assms(1) by presburger
  then have c: "n - n div 6 = int (length ?idx)"
    by simp
  have l: "length ?out = length ?idx"
    by simp
  have e: "list_all (\<lambda>i. 0 \<le> ?idx ! i \<and> nat (?idx ! i) < length video \<and>
      ?out ! i = video ! nat (?idx ! i)) [0..<length ?idx]"
    unfolding list_all_iff
  proof
    fix i
    assume "i \<in> set [0..<length ?idx]"
    then have i: "i < ?m" by simp
    then have "int i < n - n div 6" by simp
    then have "int (i + i div 5) < n" by (rule kept_index_bound)
    then have "i + i div 5 < length video"
      using assms(3) by simp
    moreover have "?idx ! i = int (i + i div 5)" "?out ! i = video ! (i + i div 5)"
      using i by simp_all
    ultimately show "0 \<le> ?idx ! i \<and> nat (?idx ! i) < length video \<and>
      ?out ! i = video ! nat (?idx ! i)"
      by (simp only: nat_int of_nat_0_le_iff simp_thms)
  qed
  show ?thesis
    using c l e by (simp only: r option.case prod.case simp_thms)
qed

theorem reduce_fps_output_is_gather_witness:
  "(0::int) \<le> 7 \<and> is_int32 7 \<and> int (length ''abcdefg'') = 7 \<and>
   reduce_fps ''abcdefg'' 7 = Some (''abcdeg'', 6, [0, 1, 2, 3, 4, 6]) \<and>
   (case reduce_fps ''abcdefg'' 7 of
      None \<Rightarrow> False
    | Some (output, output_frames, indices) \<Rightarrow>
        output_frames = int (length indices) \<and>
        length output = length indices \<and>
        list_all (\<lambda>i. 0 \<le> indices ! i \<and> nat (indices ! i) < length ''abcdefg'' \<and>
            output ! i = ''abcdefg'' ! nat (indices ! i)) [0..<length indices])"
proof -
  have h: "(0::int) \<le> 7" "is_int32 7" "int (length ''abcdefg'') = 7"
    by (simp_all add: is_int32_def)
  have r: "reduce_fps ''abcdefg'' 7 = Some (''abcdeg'', 6, [0, 1, 2, 3, 4, 6])"
    using reduce_fps_eq [of 7 "''abcdefg''"] by (simp add: upt_conv_Cons)
  from h r reduce_fps_output_is_gather [OF h] show ?thesis
    by (intro conjI)
qed

text \<open>
  C5: for a frame count \<open>n \<ge> 0\<close>, the code's test
  \<^verbatim>\<open>frame_count == remove_count * 6\<close>, with the ceiling-based \<^verbatim>\<open>remove_count\<close>,
  holds exactly when 6 divides \<open>n\<close>; \<^verbatim>\<open>remove_count\<close> is the specification's
  \<open>period_count\<close>, and the number of dropped frames that the code's \<^verbatim>\<open>tf.cond\<close>
  chooses is the one that step 4 of the specification chooses by divisibility.
\<close>

theorem equality_test_is_divisibility:
  assumes "0 \<le> n" and "is_int32 n"
  shows "(tf_equal n (tf_multiply (remove_count n) 6) \<longleftrightarrow> 6 dvd n) \<and>
         remove_count n = spec_period_count n \<and>
         dropped_count n (remove_count n) = spec_dropped_count n"
proof -
  have b: "n < 2 ^ 31"
    using assms(2) by (simp add: is_int32_def)
  have t: "tf_equal n (tf_multiply (remove_count n) 6) \<longleftrightarrow> 6 dvd n"
    using assms(1) b by (rule equality_test_iff)
  have c: "\<lceil>real_of_int n / 6\<rceil> = (n + 5) div 6"
    using ceiling_divide_eq_div [of n 6, where ?'a = real] by simp
  have p: "remove_count n = spec_period_count n"
    using assms(1) b by (simp add: remove_count_eq spec_period_count_def c)
  have "spec_dropped_count n = n div 6"
  proof (cases "6 dvd n")
    case True
    then have "(n + 5) div 6 = n div 6" by presburger
    with True show ?thesis
      by (simp add: spec_dropped_count_def spec_period_count_def c)
  next
    case False
    then have "(n + 5) div 6 - 1 = n div 6" by presburger
    with False show ?thesis
      by (simp add: spec_dropped_count_def spec_period_count_def c)
  qed
  then have d: "dropped_count n (remove_count n) = spec_dropped_count n"
    using assms(1) b by (simp add: dropped_count_eq)
  from t p d show ?thesis by (intro conjI)
qed

theorem equality_test_is_divisibility_witness:
  "(0::int) \<le> 10 \<and> is_int32 10 \<and>
   \<not> tf_equal 10 (tf_multiply (remove_count 10) 6) \<and> \<not> (6::int) dvd 10 \<and>
   remove_count 10 = 2 \<and> spec_period_count 10 = 2 \<and>
   dropped_count 10 (remove_count 10) = 1 \<and> spec_dropped_count 10 = 1"
proof -
  have h: "(0::int) \<le> 10" "is_int32 10"
    by (simp_all add: is_int32_def)
  have s: "spec_period_count 10 = 2" "spec_dropped_count 10 = 1" "\<not> (6::int) dvd 10"
    by (simp_all add: spec_period_count_def spec_dropped_count_def)
  note c = equality_test_is_divisibility [OF h]
  from c s(3) have e: "\<not> tf_equal 10 (tf_multiply (remove_count 10) 6)"
    by blast
  from c have "remove_count 10 = spec_period_count 10"
    by blast
  then have r: "remove_count 10 = 2"
    using s(1) by (rule trans)
  from c have "dropped_count 10 (remove_count 10) = spec_dropped_count 10"
    by blast
  then have d: "dropped_count 10 (remove_count 10) = 1"
    using s(2) by (rule trans)
  from h e s(3) r s(1) d s(2) show ?thesis
    by (intro conjI)
qed

text \<open>
  C6: the result is a function of \<open>(video, frame_count)\<close>, and the output count and the
  kept indices are a function of \<open>frame_count\<close> alone: two evaluations at one frame
  count, on any two videos (of any two frame types), return the same count and the same
  indices, and each returns the frames of its own video at these indices.  With
  \<open>video' = video\<close> the two results are equal.  The function reads its input and
  builds new values; nothing in it is random or stateful.
\<close>

theorem reduce_fps_indices_depend_on_frame_count_only:
  assumes "reduce_fps video n = Some (output, output_frames, indices)"
    and "reduce_fps video' n = Some (output', output_frames', indices')"
  shows "output_frames' = output_frames \<and> indices' = indices \<and>
         output = map (\<lambda>i. video ! nat i) indices \<and>
         output' = map (\<lambda>i. video' ! nat i) indices'"
  using assms
  by (auto simp: reduce_fps_def Let_def tf_gather_def tf_reshape_def
      split: bind_splits if_splits)

theorem reduce_fps_indices_depend_on_frame_count_only_witness:
  "reduce_fps ''abcdefg'' 7 = Some (''abcdeg'', 6, [0, 1, 2, 3, 4, 6]) \<and>
   reduce_fps [10, 20, 30, 40, 50, 60, 70 :: nat] 7 = Some ([10, 20, 30, 40, 50, 70], 6, [0, 1, 2, 3, 4, 6]) \<and>
   ''abcdeg'' = map (\<lambda>i. ''abcdefg'' ! nat i) [0, 1, 2, 3, 4, 6] \<and>
   [10, 20, 30, 40, 50, 70] = map (\<lambda>i. [10, 20, 30, 40, 50, 60, 70 :: nat] ! nat i) [0, 1, 2, 3, 4, 6]"
proof -
  have a: "reduce_fps ''abcdefg'' 7 = Some (''abcdeg'', 6, [0, 1, 2, 3, 4, 6])"
    using reduce_fps_eq [of 7 "''abcdefg''"] by (simp add: upt_conv_Cons)
  have b: "reduce_fps [10, 20, 30, 40, 50, 60, 70 :: nat] 7
      = Some ([10, 20, 30, 40, 50, 70], 6, [0, 1, 2, 3, 4, 6])"
    using reduce_fps_eq [of 7 "[10, 20, 30, 40, 50, 60, 70 :: nat]"] by (simp add: upt_conv_Cons)
  from a b reduce_fps_indices_depend_on_frame_count_only [OF a b] show ?thesis
    by (intro conjI) (elim conjE, assumption)+
qed

text \<open>
  C7: the reduction is not idempotent.  Applied to the output of a first application (the
  reduced video and its output count), the function returns again; the second application
  returns fewer frames than the first, and frames other than the first's, exactly when the
  original video has at least 7 frames.  (A video of at most 6 frames is reduced to at
  most 5 frames, which a second application passes through.)
\<close>

theorem reduce_fps_not_idempotent:
  assumes "is_int32 n" and "int (length video) = n"
  shows "case reduce_fps video n of
           None \<Rightarrow> False
         | Some (output, output_frames, indices) \<Rightarrow>
             (case reduce_fps output output_frames of
                None \<Rightarrow> False
              | Some (output2, output_frames2, indices2) \<Rightarrow>
                  (output_frames2 < output_frames \<longleftrightarrow> 7 \<le> n) \<and>
                  (output2 \<noteq> output \<longleftrightarrow> 7 \<le> n))"
proof -
  define m where "m = n - n div 6"
  define k where "k = m - m div 6"
  let ?out = "map (\<lambda>i. video ! (i + i div 5)) [0..<nat m]"
  let ?idx = "map (\<lambda>i. int (i + i div 5)) [0..<nat m]"
  let ?out2 = "map (\<lambda>i. ?out ! (i + i div 5)) [0..<nat k]"
  let ?idx2 = "map (\<lambda>i. int (i + i div 5)) [0..<nat k]"
  have n0: "0 \<le> n"
    using assms(2) by simp
  have b: "n < 2 ^ 31"
    using assms(1) by (simp add: is_int32_def)
  have r: "reduce_fps video n = Some (?out, m, ?idx)"
    unfolding m_def using n0 b assms(2) by (intro reduce_fps_eq) simp_all
  have m0: "0 \<le> m" and mn: "m \<le> n" and m7: "6 \<le> m \<longleftrightarrow> 7 \<le> n"
    unfolding m_def using n0 by presburger+
  have l: "int (length ?out) = m"
    using m0 by simp
  have mb: "m < 2 ^ 31"
    using mn b by simp
  have ml: "m \<le> int (length ?out)"
    using l by (rule ord_eq_le_trans [OF sym]) simp
  have r2: "reduce_fps ?out m = Some (?out2, k, ?idx2)"
    unfolding k_def using m0 mb ml by (rule reduce_fps_eq)
  have k0: "0 \<le> k" and km: "k < m \<longleftrightarrow> 6 \<le> m"
    unfolding k_def using m0 by presburger+
  have c: "k < m \<longleftrightarrow> 7 \<le> n"
    using km m7 by simp
  have o: "?out2 \<noteq> ?out \<longleftrightarrow> 7 \<le> n"
  proof (cases "7 \<le> n")
    case True
    with c have "k < m" by simp
    with k0 have "nat k \<noteq> nat m" by linarith
    then have "length ?out2 \<noteq> length ?out"
      by (simp only: length_map length_upt diff_zero not_False_eq_True)
    then have "?out2 \<noteq> ?out" by metis
    with True show ?thesis by simp
  next
    case False
    with m7 m0 have m5: "m \<le> 5" by simp
    with m0 have "m div 6 = 0" by simp
    then have "k = m" by (simp add: k_def)
    with m5 have "nat k = length ?out" "length ?out \<le> 5"
      by simp_all
    then have "?out2 = ?out"
      using kept_short(2) [of "length ?out" ?out] by simp
    with False show ?thesis by simp
  qed
  show ?thesis
    using c o by (simp only: r r2 option.case prod.case simp_thms)
qed

theorem reduce_fps_not_idempotent_witness:
  "is_int32 12 \<and> int (length ''abcdefghijkl'') = 12 \<and>
   reduce_fps ''abcdefghijkl'' 12 = Some (''abcdeghijk'', 10, [0, 1, 2, 3, 4, 6, 7, 8, 9, 10]) \<and>
   reduce_fps ''abcdeghijk'' 10 = Some (''abcdehijk'', 9, [0, 1, 2, 3, 4, 6, 7, 8, 9]) \<and>
   (case reduce_fps ''abcdefghijkl'' 12 of
      None \<Rightarrow> False
    | Some (output, output_frames, indices) \<Rightarrow>
        (case reduce_fps output output_frames of
           None \<Rightarrow> False
         | Some (output2, output_frames2, indices2) \<Rightarrow>
             (output_frames2 < output_frames \<longleftrightarrow> (7::int) \<le> 12) \<and>
             (output2 \<noteq> output \<longleftrightarrow> (7::int) \<le> 12)))"
proof -
  have h: "is_int32 12" "int (length ''abcdefghijkl'') = 12"
    by (simp_all add: is_int32_def)
  have a: "reduce_fps ''abcdefghijkl'' 12 = Some (''abcdeghijk'', 10, [0, 1, 2, 3, 4, 6, 7, 8, 9, 10])"
    using reduce_fps_eq [of 12 "''abcdefghijkl''"] by (simp add: upt_conv_Cons)
  have b: "reduce_fps ''abcdeghijk'' 10 = Some (''abcdehijk'', 9, [0, 1, 2, 3, 4, 6, 7, 8, 9])"
    using reduce_fps_eq [of 10 "''abcdeghijk''"] by (simp add: upt_conv_Cons)
  from h a b reduce_fps_not_idempotent [OF h] show ?thesis
    by (intro conjI)
qed

text \<open>
  C8: for a frame count \<open>0 < n < 6\<close> no frame is dropped: the dropped count is 0, the
  output count is \<open>n\<close>, the kept indices are \<open>0, ..., n - 1\<close> and the output is the
  input video.  At \<open>n = 5\<close> the kept indices are \<open>[0,1,2,3,4]\<close>.
\<close>

theorem reduce_fps_passthrough_below_6:
  assumes "0 < n" and "n < 6" and "int (length video) = n"
  shows "dropped_count n (remove_count n) = 0 \<and>
         reduce_fps video n = Some (video, n, [0..n - 1])"
proof -
  have d: "n div 6 = 0"
    using assms(1,2) by simp
  have "dropped_count n (remove_count n) = n div 6"
    using assms(1,2) by (intro dropped_count_eq) simp_all
  then have dc: "dropped_count n (remove_count n) = 0"
    by (simp only: d)
  have r: "reduce_fps video n =
    Some (map (\<lambda>i. video ! (i + i div 5)) [0..<nat (n - n div 6)], n - n div 6,
          map (\<lambda>i. int (i + i div 5)) [0..<nat (n - n div 6)])"
    using assms by (intro reduce_fps_eq) simp_all
  have m: "nat (n - n div 6) = length video" "length video \<le> 5"
    using assms d by simp_all
  have i: "map (\<lambda>i. int (i + i div 5)) [0..<length video] = [0..n - 1]"
    using m(2) assms(3) by (simp only: kept_short(1) map_int_upt)
  have o: "map (\<lambda>i. video ! (i + i div 5)) [0..<length video] = video"
    using m(2) by (intro kept_short(2)) simp_all
  have "reduce_fps video n =
    Some (map (\<lambda>i. video ! (i + i div 5)) [0..<length video], n - n div 6,
          map (\<lambda>i. int (i + i div 5)) [0..<length video])"
    using r by (simp only: m(1))
  then have "reduce_fps video n = Some (video, n, [0..n - 1])"
    by (simp only: i o d diff_0_right)
  with dc show ?thesis
    by (intro conjI)
qed

theorem reduce_fps_passthrough_below_6_witness:
  "(0::int) < 5 \<and> (5::int) < 6 \<and> int (length ''abcde'') = 5 \<and>
   dropped_count 5 (remove_count 5) = 0 \<and>
   reduce_fps ''abcde'' 5 = Some (''abcde'', 5, [0, 1, 2, 3, 4])"
  using reduce_fps_passthrough_below_6 [of 5 "''abcde''"]
  by (simp add: upto_rec1)

text \<open>
  C9: for a frame count \<open>n \<ge> 0\<close>, the output count is at most \<open>n\<close>, and it is the
  number of frames returned.
\<close>

theorem reduce_fps_output_count_le:
  assumes "0 \<le> n" and "is_int32 n" and "int (length video) = n"
  shows "case reduce_fps video n of
           None \<Rightarrow> False
         | Some (output, output_frames, indices) \<Rightarrow>
             output_frames \<le> n \<and> int (length output) = output_frames"
proof -
  have r: "reduce_fps video n =
    Some (map (\<lambda>i. video ! (i + i div 5)) [0..<nat (n - n div 6)], n - n div 6,
          map (\<lambda>i. int (i + i div 5)) [0..<nat (n - n div 6)])"
    using assms by (intro reduce_fps_eq) (simp_all add: is_int32_def)
  have "0 \<le> n - n div 6" "n - n div 6 \<le> n"
    using assms(1) by presburger+
  then show ?thesis
    by (simp add: r)
qed

theorem reduce_fps_output_count_le_witness:
  "(0::int) \<le> 7 \<and> is_int32 7 \<and> int (length ''abcdefg'') = 7 \<and>
   reduce_fps ''abcdefg'' 7 = Some (''abcdeg'', 6, [0, 1, 2, 3, 4, 6]) \<and>
   (case reduce_fps ''abcdefg'' 7 of
      None \<Rightarrow> False
    | Some (output, output_frames, indices) \<Rightarrow>
        output_frames \<le> 7 \<and> int (length output) = output_frames)"
proof -
  have h: "(0::int) \<le> 7" "is_int32 7" "int (length ''abcdefg'') = 7"
    by (simp_all add: is_int32_def)
  have r: "reduce_fps ''abcdefg'' 7 = Some (''abcdeg'', 6, [0, 1, 2, 3, 4, 6])"
    using reduce_fps_eq [of 7 "''abcdefg''"] by (simp add: upt_conv_Cons)
  from h r reduce_fps_output_count_le [OF h] show ?thesis
    by (intro conjI)
qed

text \<open>
  C10: at the frame count 0 the function returns: \<^verbatim>\<open>remove_count\<close> is
  \<open>ceil(0 / 6) = 0\<close>, the test \<open>0 == 0 * 6\<close> holds, the dropped count stays 0, and
  the result is no frame, the output count 0 and no index.
\<close>

theorem reduce_fps_zero_frames:
  "remove_count 0 = 0 \<and> tf_equal 0 (tf_multiply (remove_count 0) 6) \<and>
   dropped_count 0 (remove_count 0) = 0 \<and> reduce_fps video 0 = Some ([], 0, [])"
proof -
  have rc: "remove_count 0 = 0"
    by (simp add: remove_count_def tf_divide_def tf_ceil_def tf_cast_int32_def wrap32_def)
  have eq: "tf_equal 0 (tf_multiply 0 6)"
    by (simp add: tf_equal_def tf_multiply_def wrap32_def)
  have dc: "dropped_count 0 0 = 0"
    using eq by (simp add: dropped_count_def)
  have "reduce_fps video 0 = Some ([], 0, [])"
    using reduce_fps_eq [of 0 video] by simp
  with rc eq dc show ?thesis
    by simp
qed

end
